theory Spec2Isabelle
  imports Complex_Main
begin

text \<open>
  The graph query engine of \<open>graph.py\<close>: \<open>createGraph\<close>, \<open>bfsSearch\<close>,
  \<open>checkConstraints\<close>, \<open>scoreCandidate\<close>, \<open>explainRules\<close> and
  \<open>findAlternatives\<close>, with the part of \<open>networkx.Graph\<close> they use. Every
  function that can raise returns a sum, the exception on the left.
\<close>

section \<open>Values and errors\<close>

text \<open>
  The exceptions the code can raise: \<open>KeyError\<close> from a dictionary lookup,
  \<open>ValueError\<close> from \<open>float\<close>, \<open>NetworkXError\<close> from \<open>graph.neighbors\<close> on a
  key that is not a node.
\<close>

datatype error = KeyError | ValueError | NetworkXError

text \<open>
  A Python float as far as the code uses one: prices are only compared, never
  computed with. A finite double is the rational it denotes; the comparison with
  a NaN operand is false.
\<close>

datatype pyfloat = Finite rat | PosInf | NegInf | NaN

fun float_lt :: "pyfloat \<Rightarrow> pyfloat \<Rightarrow> bool" where
  "float_lt NaN _ = False"
| "float_lt _ NaN = False"
| "float_lt (Finite a) (Finite b) = (a < b)"
| "float_lt (Finite _) PosInf = True"
| "float_lt NegInf (Finite _) = True"
| "float_lt NegInf PosInf = True"
| "float_lt _ _ = False"

definition float_gt :: "pyfloat \<Rightarrow> pyfloat \<Rightarrow> bool" where
  "float_gt a b = float_lt b a"

section \<open>Dictionaries in insertion order\<close>

text \<open>
  A Python dictionary keeps its keys in insertion order, and an assignment to a
  key that is there keeps the key's position. Lookup is \<open>map_of\<close>.
\<close>

fun dict_set :: "'k \<Rightarrow> 'v \<Rightarrow> ('k \<times> 'v) list \<Rightarrow> ('k \<times> 'v) list" where
  "dict_set k v [] = [(k, v)]"
| "dict_set k v (kv # kvs) =
     (if fst kv = k then (k, v) # kvs else kv # dict_set k v kvs)"

section \<open>The graph\<close>

text \<open>
  The attribute dictionary of a node. \<open>createGraph\<close> writes three shapes: the
  six keys of a product, \<open>type = "category"\<close> alone and \<open>type = "tag"\<close> alone;
  \<open>Graph.add_edge\<close> gives an endpoint that is not a node yet an empty dictionary.
\<close>

datatype node_data =
    Product (brand: string) (category: string) (price: pyfloat) (stock: bool) (tags: "string list")
  | Category
  | Tag
  | NoAttrs

text \<open>
  \<open>networkx.Graph\<close>: \<open>_node\<close> maps a node to its attributes, \<open>_adj\<close> maps a node
  to the dictionary of its neighbours, each with the edge's \<open>relation\<close>.
\<close>

record graph =
  g_node :: "(string \<times> node_data) list"
  g_adj :: "(string \<times> (string \<times> string) list) list"

definition empty_graph :: graph where
  "empty_graph = \<lparr>g_node = [], g_adj = []\<rparr>"

definition has_node :: "graph \<Rightarrow> string \<Rightarrow> bool" where
  "has_node g n = (map_of (g_node g) n \<noteq> None)"

text \<open>
  \<open>Graph.add_node(n, **attr)\<close>. A new node gets an empty adjacency. On a node
  that is there, networkx updates the attribute dictionary; \<open>createGraph\<close> does
  that only with the six product keys, which overwrite every key a dictionary
  of the shapes above holds, so the new attributes replace the old ones.
\<close>

definition add_node :: "graph \<Rightarrow> string \<Rightarrow> node_data \<Rightarrow> graph" where
  "add_node g n d =
     (if has_node g n then g\<lparr>g_node := dict_set n d (g_node g)\<rparr>
      else g\<lparr>g_node := dict_set n d (g_node g), g_adj := dict_set n [] (g_adj g)\<rparr>)"

text \<open>\<open>self._adj[u][v] = datadict\<close>, the data being the \<open>relation\<close> label.\<close>

definition set_nbr :: "string \<Rightarrow> string \<Rightarrow> string \<Rightarrow>
    (string \<times> (string \<times> string) list) list \<Rightarrow> (string \<times> (string \<times> string) list) list" where
  "set_nbr u v rel adj =
     (case map_of adj u of
        None \<Rightarrow> adj
      | Some nb \<Rightarrow> dict_set u (dict_set v rel nb) adj)"

text \<open>
  \<open>Graph.add_edge(u, v, relation=rel)\<close>: both endpoints become nodes if they are
  not, then the edge is written in both directions. An edge that is there keeps
  its place among the neighbours and takes the new label.
\<close>

definition add_edge :: "graph \<Rightarrow> string \<Rightarrow> string \<Rightarrow> string \<Rightarrow> graph" where
  "add_edge g u v rel =
     (let g1 = (if has_node g u then g else add_node g u NoAttrs);
          g2 = (if has_node g1 v then g1 else add_node g1 v NoAttrs)
      in g2\<lparr>g_adj := set_nbr v u rel (set_nbr u v rel (g_adj g2))\<rparr>)"

text \<open>\<open>graph.neighbors(n)\<close>, in the order the edges were first added.\<close>

definition neighbors :: "graph \<Rightarrow> string \<Rightarrow> error + string list" where
  "neighbors g n =
     (case map_of (g_adj g) n of
        None \<Rightarrow> Inl NetworkXError
      | Some nb \<Rightarrow> Inr (map fst nb))"

section \<open>createGraph\<close>

text \<open>
  A row of \<open>csv.DictReader\<close> over a file whose header has the six columns and
  whose rows have all six cells: every field is the raw string of the cell.
\<close>

record row =
  r_id :: string
  r_category :: string
  r_brand :: string
  r_price :: string
  r_stock :: string
  r_tags :: string

text \<open>The values of lines 12 to 17, the product as the graph stores it.\<close>

record product =
  p_id :: string
  p_category :: string
  p_brand :: string
  p_price :: pyfloat
  p_stock :: bool
  p_tags :: "string list"

text \<open>\<open>str.split(sep)\<close> with a one-character separator: never an empty list.\<close>

fun split_on :: "char \<Rightarrow> string \<Rightarrow> string list" where
  "split_on sep [] = [[]]"
| "split_on sep (c # cs) =
     (if c = sep then [] # split_on sep cs
      else (case split_on sep cs of
              [] \<Rightarrow> [[c]]
            | w # ws \<Rightarrow> (c # w) # ws))"

text \<open>\<open>str.lower()\<close> on the ASCII letters; other bytes stay.\<close>

definition lower_char :: "char \<Rightarrow> char" where
  "lower_char c =
     (let n = (of_char c :: nat) in if 65 \<le> n \<and> n \<le> 90 then char_of (n + 32) else c)"

definition lower :: "string \<Rightarrow> string" where
  "lower s = map lower_char s"

text \<open>
  Lines 12 to 17. \<open>float_of\<close> stands for Python's built-in \<open>float\<close> on a string,
  \<open>None\<close> where it raises \<open>ValueError\<close>; it is the only call that can raise.
\<close>

definition parse_row :: "(string \<Rightarrow> pyfloat option) \<Rightarrow> row \<Rightarrow> error + product" where
  "parse_row float_of r =
     (case float_of (r_price r) of
        None \<Rightarrow> Inl ValueError
      | Some pr \<Rightarrow>
          Inr \<lparr>p_id = r_id r, p_category = r_category r, p_brand = r_brand r,
               p_price = pr, p_stock = (lower (r_stock r) = ''true''),
               p_tags = split_on CHR '';'' (r_tags r)\<rparr>)"

text \<open>Lines 37 to 40, one tag.\<close>

definition add_tag :: "string \<Rightarrow> string \<Rightarrow> graph \<Rightarrow> graph" where
  "add_tag product_id tag g =
     add_edge (if has_node g tag then g else add_node g tag Tag) product_id tag ''HAS TAG''"

text \<open>The attributes of the product node, lines 20 to 28.\<close>

definition product_data :: "product \<Rightarrow> node_data" where
  "product_data p = Product (p_brand p) (p_category p) (p_price p) (p_stock p) (p_tags p)"

text \<open>Lines 20 to 40, one product.\<close>

definition add_product :: "graph \<Rightarrow> product \<Rightarrow> graph" where
  "add_product g p =
     (let g1 = add_node g (p_id p) (product_data p);
          g2 = (if has_node g1 (p_category p) then g1 else add_node g1 (p_category p) Category);
          g3 = add_edge g2 (p_id p) (p_category p) ''IS A''
      in fold (add_tag (p_id p)) (p_tags p) g3)"

text \<open>The loop of \<open>createGraph\<close>: an exception in a row ends the build.\<close>

fun create_loop :: "(string \<Rightarrow> pyfloat option) \<Rightarrow> graph \<Rightarrow> row list \<Rightarrow> error + graph" where
  "create_loop float_of g [] = Inr g"
| "create_loop float_of g (r # rs) =
     (case parse_row float_of r of
        Inl e \<Rightarrow> Inl e
      | Inr p \<Rightarrow> create_loop float_of (add_product g p) rs)"

definition createGraph :: "(string \<Rightarrow> pyfloat option) \<Rightarrow> row list \<Rightarrow> error + graph" where
  "createGraph float_of rows = create_loop float_of empty_graph rows"

text \<open>The graph of a sequence of products: lines 20 to 40 for each, in order.\<close>

definition build_graph :: "product list \<Rightarrow> graph" where
  "build_graph ps = foldl add_product empty_graph ps"

section \<open>bfsSearch\<close>

text \<open>
  The \<open>while queue\<close> loop. The state is the visited set, the queue and the
  product list. A popped node that is not in the graph raises \<open>KeyError\<close> at
  \<open>graph.nodes[node]\<close>.
\<close>

function bfs_loop :: "graph \<Rightarrow> string \<Rightarrow> string set \<Rightarrow> string list \<Rightarrow> string list
    \<Rightarrow> error + string list" where
  "bfs_loop g start visited [] productList = Inr productList"
| "bfs_loop g start visited (node # queue) productList =
     (if node \<in> visited then bfs_loop g start visited queue productList
      else
        (case map_of (g_node g) node of
           None \<Rightarrow> Inl KeyError
         | Some nodeData \<Rightarrow>
             (case neighbors g node of
                Inl e \<Rightarrow> Inl e
              | Inr nbs \<Rightarrow>
                  bfs_loop g start (insert node visited)
                    (queue @ filter (\<lambda>neighbor. neighbor \<notin> insert node visited) nbs)
                    (if node \<noteq> start \<and> is_Product nodeData
                     then productList @ [node] else productList))))"
  by pat_completeness auto

termination
proof (relation "measures [\<lambda>(g, start, visited, queue, productList).
                             card (fst ` set (g_node g) - visited),
                           \<lambda>(g, start, visited, queue, productList). length queue]")
  show "wf (measures [\<lambda>(g, start, visited, queue, productList).
                             card (fst ` set (g_node g) - visited),
                           \<lambda>(g, start, visited, queue, productList). length queue])"
    by simp
next
  fix g :: graph and start :: string and visited :: "string set" and node :: string
    and queue productList :: "string list"
  assume "node \<in> visited"
  then show "((g, start, visited, queue, productList), (g, start, visited, node # queue, productList))
      \<in> measures [\<lambda>(g, start, visited, queue, productList).
                             card (fst ` set (g_node g) - visited),
                           \<lambda>(g, start, visited, queue, productList). length queue]"
    by simp
next
  fix g :: graph and start :: string and visited :: "string set" and node :: string
    and queue productList :: "string list" and nodeData nbs
  assume nv: "node \<notin> visited" and nd: "map_of (g_node g) node = Some nodeData"
  from nd have "node \<in> fst ` set (g_node g)"
    by (metis domI dom_map_of_conv_image_fst)
  with nv have "card (fst ` set (g_node g) - insert node visited)
      < card (fst ` set (g_node g) - visited)"
    by (intro psubset_card_mono) auto
  then show "((g, start, insert node visited,
        queue @ filter (\<lambda>neighbor. neighbor \<notin> insert node visited) nbs,
        if node \<noteq> start \<and> is_Product nodeData then productList @ [node] else productList),
       (g, start, visited, node # queue, productList))
      \<in> measures [\<lambda>(g, start, visited, queue, productList).
                             card (fst ` set (g_node g) - visited),
                           \<lambda>(g, start, visited, queue, productList). length queue]"
    by simp
qed

definition bfsSearch :: "graph \<Rightarrow> string \<Rightarrow> error + string list" where
  "bfsSearch g startProduct = bfs_loop g startProduct {} [startProduct] []"

section \<open>checkConstraints\<close>

text \<open>The loop over \<open>requiredTags\<close>: the first tag the product lacks rejects.\<close>

fun tags_loop :: "string list \<Rightarrow> string list \<Rightarrow> bool" where
  "tags_loop [] productTags = True"
| "tags_loop (tag # requiredTags) productTags =
     (if tag \<notin> set productTags then False else tags_loop requiredTags productTags)"

text \<open>
  \<open>data["stock"]\<close> raises \<open>KeyError\<close> on a node without that key, as does
  \<open>graph.nodes[productId]\<close> on a key that is not a node.
\<close>

definition checkConstraints ::
    "graph \<Rightarrow> string \<Rightarrow> pyfloat \<Rightarrow> string list \<Rightarrow> string option \<Rightarrow> error + bool" where
  "checkConstraints g productId maxPrice requiredTags preferredBrand =
     (case map_of (g_node g) productId of
        Some (Product br cat pr st ts) \<Rightarrow>
          if \<not> st then Inr False
          else if float_gt pr maxPrice then Inr False
          else if \<not> tags_loop requiredTags ts then Inr False
          else if preferredBrand \<noteq> None \<and> preferredBrand \<noteq> Some [] \<and> Some br \<noteq> preferredBrand
            then Inr False
          else Inr True
      | _ \<Rightarrow> Inl KeyError)"

section \<open>scoreCandidate\<close>

text \<open>The loop over the neighbours of the requested category, with its \<open>break\<close>.\<close>

fun category_loop :: "string list \<Rightarrow> string \<Rightarrow> int \<Rightarrow> int" where
  "category_loop [] candidateCategory score = score"
| "category_loop (neighbor # nbs) candidateCategory score =
     (if neighbor = candidateCategory then score + 1
      else category_loop nbs candidateCategory score)"

definition scoreCandidate :: "graph \<Rightarrow> string \<Rightarrow> string \<Rightarrow> error + int" where
  "scoreCandidate g requestedProduct candidateProduct =
     (case (map_of (g_node g) requestedProduct, map_of (g_node g) candidateProduct) of
        (Some (Product rbr rcat rpr rst rts), Some (Product cbr ccat cpr cst cts)) \<Rightarrow>
          (case (if rcat = ccat then Inr 3
                 else (case neighbors g rcat of
                         Inl e \<Rightarrow> Inl e
                       | Inr nbs \<Rightarrow> Inr (category_loop nbs ccat 0))) of
             Inl e \<Rightarrow> Inl e
           | Inr score1 \<Rightarrow>
               (let score2 = (if rbr = cbr then score1 + 1 else score1);
                    score3 = (if float_lt cpr rpr then score2 + 1 else score2)
                in Inr score3))
      | _ \<Rightarrow> Inl KeyError)"

section \<open>explainRules\<close>

definition explainRules ::
    "graph \<Rightarrow> string \<Rightarrow> string \<Rightarrow> string list \<Rightarrow> error + string list" where
  "explainRules g requestedProduct candidateProduct requiredTags =
     (case (map_of (g_node g) requestedProduct, map_of (g_node g) candidateProduct) of
        (Some (Product rbr rcat rpr rst rts), Some (Product cbr ccat cpr cst cts)) \<Rightarrow>
          (let rules1 = (if rcat = ccat then [''Same Category''] else [''Similar Category'']);
               rules2 = (if list_all (\<lambda>tag. tag \<in> set cts) requiredTags
                         then rules1 @ [''All tags matched''] else rules1);
               rules3 = (if float_lt cpr rpr then rules2 @ [''Cheaper than original''] else rules2);
               rules4 = (if cbr = rbr then rules3 @ [''Same brand'']
                         else rules3 @ [''Different brand''])
           in Inr rules4)
      | _ \<Rightarrow> Inl KeyError)"

section \<open>findAlternatives\<close>

text \<open>
  The tuples of the result: the three components of an alternative (product id,
  score, rules), and the four of the in-stock answer (marker, product id, score,
  rules).
\<close>

datatype result =
    Tuple3 string int "string list"
  | Tuple4 string string int "string list"

fun tuple_len :: "result \<Rightarrow> nat" where
  "tuple_len (Tuple3 _ _ _) = 3"
| "tuple_len (Tuple4 _ _ _ _) = 4"

text \<open>The loop that fills \<open>validList\<close>.\<close>

fun valid_loop :: "graph \<Rightarrow> string \<Rightarrow> pyfloat \<Rightarrow> string list \<Rightarrow> string option \<Rightarrow>
    string list \<Rightarrow> (string \<times> int \<times> string list) list \<Rightarrow>
    error + (string \<times> int \<times> string list) list" where
  "valid_loop g requestedProduct maxPrice requiredTags preferredBrand [] validList =
     Inr validList"
| "valid_loop g requestedProduct maxPrice requiredTags preferredBrand (productId # rest) validList =
     (case checkConstraints g productId maxPrice requiredTags preferredBrand of
        Inl e \<Rightarrow> Inl e
      | Inr False \<Rightarrow>
          valid_loop g requestedProduct maxPrice requiredTags preferredBrand rest validList
      | Inr True \<Rightarrow>
          (case scoreCandidate g requestedProduct productId of
             Inl e \<Rightarrow> Inl e
           | Inr score \<Rightarrow>
               (case explainRules g requestedProduct productId requiredTags of
                  Inl e \<Rightarrow> Inl e
                | Inr rules \<Rightarrow>
                    valid_loop g requestedProduct maxPrice requiredTags preferredBrand rest
                      (validList @ [(productId, score, rules)]))))"

text \<open>
  \<open>list.sort(key=..., reverse=True)\<close>: CPython reverses the list, sorts it stably
  by ascending key and reverses it again.
\<close>

definition sort_reverse :: "('a \<Rightarrow> int) \<Rightarrow> 'a list \<Rightarrow> 'a list" where
  "sort_reverse key xs = rev (sort_key key (rev xs))"

definition findAlternatives ::
    "graph \<Rightarrow> string \<Rightarrow> pyfloat \<Rightarrow> string list \<Rightarrow> string option \<Rightarrow> error + result list" where
  "findAlternatives g requestedProduct maxPrice requiredTags preferredBrand =
     (case map_of (g_node g) requestedProduct of
        None \<Rightarrow> Inr []
      | Some (Product br cat pr st ts) \<Rightarrow>
          if st then Inr [Tuple4 ''EXACT_MATCH'' requestedProduct 999 [''product_in_stock'']]
          else
            (case bfsSearch g requestedProduct of
               Inl e \<Rightarrow> Inl e
             | Inr candidateProducts \<Rightarrow>
                 (case valid_loop g requestedProduct maxPrice requiredTags preferredBrand
                         candidateProducts [] of
                    Inl e \<Rightarrow> Inl e
                  | Inr validList \<Rightarrow>
                      Inr (map (\<lambda>(productId, score, rules). Tuple3 productId score rules)
                             (take 3 (sort_reverse (\<lambda>x. fst (snd x)) validList)))))
      | Some _ \<Rightarrow> Inl KeyError)"

section \<open>Well-formed graphs and record sequences\<close>

text \<open>
  What networkx keeps true of every graph: each node has an adjacency, and each
  neighbour is a node.
\<close>

definition graph_ok :: "graph \<Rightarrow> bool" where
  "graph_ok g =
     (list_all (\<lambda>n. map_of (g_adj g) n \<noteq> None) (map fst (g_node g))
      \<and> list_all (\<lambda>nb. list_all (has_node g) (map fst nb)) (map snd (g_adj g)))"

text \<open>
  The three kinds of key do not meet: the product ids are distinct, no category
  is a product id, and no tag is a product id or a category.
\<close>

definition keys_separate :: "product list \<Rightarrow> bool" where
  "keys_separate ps =
     (distinct (map p_id ps)
      \<and> list_all (\<lambda>p. p_category p \<notin> set (map p_id ps)
            \<and> list_all (\<lambda>t. t \<notin> set (map p_id ps) \<and> t \<notin> set (map p_category ps)) (p_tags p))
          ps)"

text \<open>The edges of a neighbour dictionary by their \<open>relation\<close>.\<close>

definition is_a_edges :: "(string \<times> string) list \<Rightarrow> (string \<times> string) list" where
  "is_a_edges nb = filter (\<lambda>e. snd e = ''IS A'') nb"

definition has_tag_edges :: "(string \<times> string) list \<Rightarrow> (string \<times> string) list" where
  "has_tag_edges nb = filter (\<lambda>e. snd e = ''HAS TAG'') nb"

section \<open>Example graphs\<close>

text \<open>
  The three products of the scenario of the specification, then two record
  sequences in which a key is used twice: a product id that comes back with
  another category, and a product id that is also the category of another
  product.
\<close>

definition prodA :: product where
  "prodA = \<lparr>p_id = ''A'', p_category = ''shoes'', p_brand = ''X'', p_price = Finite 50,
            p_stock = False, p_tags = [''running'']\<rparr>"
definition prodB :: product where
  "prodB = \<lparr>p_id = ''B'', p_category = ''shoes'', p_brand = ''X'', p_price = Finite 40,
            p_stock = True, p_tags = [''running'', ''light'']\<rparr>"
definition prodC :: product where
  "prodC = \<lparr>p_id = ''C'', p_category = ''shoes'', p_brand = ''Y'', p_price = Finite 60,
            p_stock = True, p_tags = [''running'']\<rparr>"

definition scenario_graph :: graph where
  "scenario_graph = build_graph [prodA, prodB, prodC]"

definition relinked_graph :: graph where
  "relinked_graph = build_graph
     [\<lparr>p_id = ''P'', p_category = ''shoes'', p_brand = ''X'', p_price = Finite 50,
         p_stock = True, p_tags = [''running'']\<rparr>,
      \<lparr>p_id = ''P'', p_category = ''boots'', p_brand = ''X'', p_price = Finite 50,
         p_stock = True, p_tags = [''running'']\<rparr>,
      \<lparr>p_id = ''R'', p_category = ''shoes'', p_brand = ''Y'', p_price = Finite 50,
         p_stock = False, p_tags = [''running'']\<rparr>,
      \<lparr>p_id = ''C'', p_category = ''boots'', p_brand = ''Z'', p_price = Finite 60,
         p_stock = True, p_tags = [''running'']\<rparr>]"

definition collision_graph :: graph where
  "collision_graph = build_graph
     [\<lparr>p_id = ''boots'', p_category = ''shoes'', p_brand = ''X'', p_price = Finite 50,
         p_stock = True, p_tags = [''running'']\<rparr>,
      \<lparr>p_id = ''R'', p_category = ''shoes'', p_brand = ''Y'', p_price = Finite 50,
         p_stock = False, p_tags = [''running'']\<rparr>,
      \<lparr>p_id = ''C'', p_category = ''boots'', p_brand = ''Z'', p_price = Finite 60,
         p_stock = True, p_tags = [''running'']\<rparr>]"

text \<open>
  A stand-in for \<open>float\<close> in the examples: the value of a string of ASCII
  digits, as \<open>float\<close> gives it for up to 15 digits, and \<open>None\<close> otherwise. It
  agrees with \<open>float\<close> on the price strings the examples use, "50" and "abc".
\<close>

fun digits_value :: "string \<Rightarrow> nat \<Rightarrow> nat option" where
  "digits_value [] acc = Some acc"
| "digits_value (c # cs) acc =
     (let n = (of_char c :: nat)
      in if 48 \<le> n \<and> n \<le> 57 then digits_value cs (10 * acc + (n - 48)) else None)"

definition float_digits :: "string \<Rightarrow> pyfloat option" where
  "float_digits s =
     (if s = [] then None else map_option (\<lambda>n. Finite (of_nat n)) (digits_value s 0))"

text \<open>
  Rows of a product file: a stock cell that is neither "true" nor "false", a
  price cell that is not a number, and a tag cell with a space after a
  separator and an empty last token.
\<close>

definition odd_stock_row :: row where
  "odd_stock_row = \<lparr>r_id = ''P1'', r_category = ''shoes'', r_brand = ''X'', r_price = ''50'',
                     r_stock = ''maybe'', r_tags = ''running''\<rparr>"

definition bad_price_row :: row where
  "bad_price_row = \<lparr>r_id = ''P2'', r_category = ''shoes'', r_brand = ''X'', r_price = ''abc'',
                     r_stock = ''true'', r_tags = ''running''\<rparr>"

definition spaced_tags_row :: row where
  "spaced_tags_row = \<lparr>r_id = ''P3'', r_category = ''shoes'', r_brand = ''X'', r_price = ''50'',
                       r_stock = ''TRUE'', r_tags = ''running; light;''\<rparr>"

text \<open>One product whose first tag is the name of its category.\<close>

definition tag_is_category_graph :: graph where
  "tag_is_category_graph = build_graph
     [\<lparr>p_id = ''P1'', p_category = ''shoes'', p_brand = ''X'', p_price = Finite 50,
         p_stock = True, p_tags = [''shoes'', ''running'']\<rparr>]"

section \<open>Lemmas on the graph operations\<close>

lemma has_node_iff: "has_node g n \<longleftrightarrow> n \<in> fst ` set (g_node g)"
  by (simp add: has_node_def map_of_eq_None_iff)

lemma graph_ok_iff:
  "graph_ok g \<longleftrightarrow>
     (\<forall>n \<in> fst ` set (g_node g). map_of (g_adj g) n \<noteq> None)
     \<and> (\<forall>e \<in> set (g_adj g). \<forall>x \<in> set (snd e). fst x \<in> fst ` set (g_node g))"
  by (simp add: graph_ok_def list_all_iff has_node_iff)

subsection \<open>Dictionaries\<close>

lemma map_of_dict_set: "map_of (dict_set k v d) k' = (if k' = k then Some v else map_of d k')"
  by (induction d) auto

lemma keys_dict_set: "fst ` set (dict_set k v d) = insert k (fst ` set d)"
  by (induction d) auto

lemma set_dict_set: "x \<in> set (dict_set k v d) \<Longrightarrow> x = (k, v) \<or> x \<in> set d"
  by (induction d) (auto split: if_splits)

lemma distinct_dict_set: "distinct (map fst d) \<Longrightarrow> distinct (map fst (dict_set k v d))"
  by (induction d) (auto simp: keys_dict_set)

subsection \<open>add_node and add_edge\<close>

lemma node_add_node:
  "map_of (g_node (add_node g n d)) m = (if m = n then Some d else map_of (g_node g) m)"
  by (simp add: add_node_def map_of_dict_set)

lemma has_node_add_node: "has_node (add_node g n d) m \<longleftrightarrow> m = n \<or> has_node g m"
  by (simp add: has_node_def node_add_node)

lemma adj_add_node:
  "map_of (g_adj (add_node g n d)) m =
     (if m = n \<and> \<not> has_node g n then Some [] else map_of (g_adj g) m)"
  by (simp add: add_node_def map_of_dict_set)

lemma set_adj_add_node:
  "e \<in> set (g_adj (add_node g n d)) \<Longrightarrow> e = (n, []) \<or> e \<in> set (g_adj g)"
  by (auto simp: add_node_def dest: set_dict_set split: if_splits)

lemma map_of_set_nbr:
  "map_of (set_nbr u v rel adj) m =
     (if m = u then map_option (dict_set v rel) (map_of adj u) else map_of adj m)"
  by (auto simp: set_nbr_def map_of_dict_set split: option.splits)

lemma set_set_nbr:
  "e \<in> set (set_nbr u v rel adj) \<Longrightarrow>
     e \<in> set adj \<or> (\<exists>nb. (u, nb) \<in> set adj \<and> e = (u, dict_set v rel nb))"
  by (auto simp: set_nbr_def dest: set_dict_set map_of_SomeD split: option.splits)

lemma add_edge_present:
  "has_node g u \<Longrightarrow> has_node g v \<Longrightarrow>
   add_edge g u v rel = g\<lparr>g_adj := set_nbr v u rel (set_nbr u v rel (g_adj g))\<rparr>"
  by (simp add: add_edge_def)

lemma node_add_edge:
  "has_node g u \<Longrightarrow> has_node g v \<Longrightarrow> g_node (add_edge g u v rel) = g_node g"
  by (simp add: add_edge_present)

lemma has_node_add_edge:
  "has_node g u \<Longrightarrow> has_node g v \<Longrightarrow> has_node (add_edge g u v rel) m = has_node g m"
  by (simp add: has_node_def node_add_edge)

subsection \<open>Built graphs are well formed\<close>

lemma graph_ok_empty: "graph_ok empty_graph"
  by (simp add: graph_ok_def empty_graph_def)

lemma graph_ok_add_node: "graph_ok g \<Longrightarrow> graph_ok (add_node g n d)"
  unfolding graph_ok_iff
proof (intro conjI ballI)
  assume ok: "(\<forall>n\<in>fst ` set (g_node g). map_of (g_adj g) n \<noteq> None) \<and>
    (\<forall>e\<in>set (g_adj g). \<forall>x\<in>set (snd e). fst x \<in> fst ` set (g_node g))"
  fix m assume "m \<in> fst ` set (g_node (add_node g n d))"
  then have "has_node (add_node g n d) m" by (simp add: has_node_iff)
  then have "m = n \<or> has_node g m" by (simp add: has_node_add_node)
  with ok show "map_of (g_adj (add_node g n d)) m \<noteq> None"
    by (auto simp: adj_add_node has_node_iff)
next
  assume ok: "(\<forall>n\<in>fst ` set (g_node g). map_of (g_adj g) n \<noteq> None) \<and>
    (\<forall>e\<in>set (g_adj g). \<forall>x\<in>set (snd e). fst x \<in> fst ` set (g_node g))"
  fix e x assume e: "e \<in> set (g_adj (add_node g n d))" and x: "x \<in> set (snd e)"
  from e have "e = (n, []) \<or> e \<in> set (g_adj g)" by (rule set_adj_add_node)
  with x ok have "has_node g (fst x)" by (auto simp: has_node_iff)
  then have "has_node (add_node g n d) (fst x)" by (simp add: has_node_add_node)
  then show "fst x \<in> fst ` set (g_node (add_node g n d))" by (simp add: has_node_iff)
qed

lemma graph_ok_add_edge:
  assumes ok: "graph_ok g" and u: "has_node g u" and v: "has_node g v"
  shows "graph_ok (add_edge g u v rel)"
proof -
  let ?adj = "set_nbr v u rel (set_nbr u v rel (g_adj g))"
  have eq: "add_edge g u v rel = g\<lparr>g_adj := ?adj\<rparr>"
    using u v by (rule add_edge_present)
  have nodes: "\<And>e x. e \<in> set (g_adj g) \<Longrightarrow> x \<in> set (snd e) \<Longrightarrow> has_node g (fst x)"
    using ok by (simp add: graph_ok_iff has_node_iff)
  have step: "\<And>a b adj. has_node g b \<Longrightarrow>
      (\<And>e x. e \<in> set adj \<Longrightarrow> x \<in> set (snd e) \<Longrightarrow> has_node g (fst x)) \<Longrightarrow>
      (\<And>e x. e \<in> set (set_nbr a b rel adj) \<Longrightarrow> x \<in> set (snd e) \<Longrightarrow> has_node g (fst x))"
  proof -
    fix a b adj e x
    assume b: "has_node g b"
      and old: "\<And>e x. e \<in> set adj \<Longrightarrow> x \<in> set (snd e) \<Longrightarrow> has_node g (fst x)"
      and e: "e \<in> set (set_nbr a b rel adj)" and x: "x \<in> set (snd e)"
    from e consider "e \<in> set adj" | nb where "(a, nb) \<in> set adj" "e = (a, dict_set b rel nb)"
      by (auto dest: set_set_nbr)
    then show "has_node g (fst x)"
    proof cases
      case 1
      with x old show ?thesis by blast
    next
      case 2
      with x have "x = (b, rel) \<or> x \<in> set nb" by (auto dest: set_dict_set)
      then show ?thesis
      proof
        assume "x = (b, rel)" with b show ?thesis by simp
      next
        assume "x \<in> set nb"
        with old [of "(a, nb)" x] 2 show ?thesis by simp
      qed
    qed
  qed
  have all: "\<And>e x. e \<in> set ?adj \<Longrightarrow> x \<in> set (snd e) \<Longrightarrow> has_node g (fst x)"
    by (rule step [OF u]) (rule step [OF v nodes])
  have dom: "\<And>n. has_node g n \<Longrightarrow> map_of ?adj n \<noteq> None"
    using ok by (auto simp: graph_ok_iff has_node_iff map_of_set_nbr)
  show ?thesis
    unfolding eq graph_ok_iff using all dom by (simp add: has_node_iff)
qed

lemma graph_ok_add_tag:
  assumes "graph_ok g" and "has_node g product_id"
  shows "graph_ok (add_tag product_id tag g) \<and> has_node (add_tag product_id tag g) product_id"
proof -
  let ?g = "if has_node g tag then g else add_node g tag Tag"
  have ok: "graph_ok ?g" using assms(1) by (simp add: graph_ok_add_node)
  have p: "has_node ?g product_id" using assms(2) by (simp add: has_node_add_node)
  have t: "has_node ?g tag" by (simp add: has_node_add_node)
  show ?thesis
    unfolding add_tag_def using graph_ok_add_edge [OF ok p t] p t
    by (simp add: has_node_add_edge)
qed

lemma graph_ok_fold_tags:
  "graph_ok g \<Longrightarrow> has_node g product_id \<Longrightarrow> graph_ok (fold (add_tag product_id) ts g)"
  by (induction ts arbitrary: g) (simp_all add: graph_ok_add_tag)

lemma graph_ok_add_product: 
  assumes "graph_ok g"
  shows "graph_ok (add_product g p)"
proof -
  let ?g1 = "add_node g (p_id p) (product_data p)"
  let ?g2 = "if has_node ?g1 (p_category p) then ?g1 else add_node ?g1 (p_category p) Category"
  have ok2: "graph_ok ?g2" using assms by (simp add: graph_ok_add_node)
  have i: "has_node ?g2 (p_id p)" and c: "has_node ?g2 (p_category p)"
    by (simp_all add: has_node_add_node)
  have "graph_ok (add_edge ?g2 (p_id p) (p_category p) ''IS A'')"
    using ok2 i c by (rule graph_ok_add_edge)
  moreover have "has_node (add_edge ?g2 (p_id p) (p_category p) ''IS A'') (p_id p)"
    using i c by (simp add: has_node_add_edge)
  ultimately show ?thesis
    unfolding add_product_def Let_def by (rule graph_ok_fold_tags)
qed

lemma graph_ok_foldl: "graph_ok g \<Longrightarrow> graph_ok (foldl add_product g ps)"
  by (induction ps arbitrary: g) (simp_all add: graph_ok_add_product)

lemma graph_ok_build_graph: "graph_ok (build_graph ps)"
  unfolding build_graph_def by (rule graph_ok_foldl) (rule graph_ok_empty)

lemma set_dict_set_distinct:
  "distinct (map fst d) \<Longrightarrow> set (dict_set k v d) = insert (k, v) {e \<in> set d. fst e \<noteq> k}"
  by (induction d) (auto simp: rev_image_eqI)

subsection \<open>One tag\<close>

lemma node_add_tag:
  assumes "has_node g product_id"
  shows "map_of (g_node (add_tag product_id tag g)) m =
     (if has_node g m then map_of (g_node g) m else if m = tag then Some Tag else None)"
proof -
  let ?g = "if has_node g tag then g else add_node g tag Tag"
  have "has_node ?g product_id" "has_node ?g tag"
    using assms by (simp_all add: has_node_add_node)
  then have "g_node (add_tag product_id tag g) = g_node ?g"
    unfolding add_tag_def by (rule node_add_edge)
  then show ?thesis
    by (auto simp: node_add_node has_node_def)
qed

lemma has_node_add_tag:
  "has_node g product_id \<Longrightarrow> has_node (add_tag product_id tag g) m \<longleftrightarrow> has_node g m \<or> m = tag"
  unfolding has_node_def [of "add_tag product_id tag g"]
  by (simp add: node_add_tag) (simp add: has_node_def)

lemma adj_add_tag:
  assumes "has_node g product_id"
  shows "map_of (g_adj (add_tag product_id tag g)) m =
     map_of (set_nbr tag product_id ''HAS TAG'' (set_nbr product_id tag ''HAS TAG''
       (g_adj (if has_node g tag then g else add_node g tag Tag)))) m"
proof -
  let ?g = "if has_node g tag then g else add_node g tag Tag"
  have "has_node ?g product_id" "has_node ?g tag"
    using assms by (simp_all add: has_node_add_node)
  then show ?thesis
    unfolding add_tag_def by (simp add: add_edge_present)
qed

lemma adj_add_tag_other:
  "has_node g product_id \<Longrightarrow> m \<noteq> product_id \<Longrightarrow> m \<noteq> tag \<Longrightarrow>
   map_of (g_adj (add_tag product_id tag g)) m = map_of (g_adj g) m"
  by (simp add: adj_add_tag map_of_set_nbr adj_add_node)

lemma adj_add_tag_self:
  "has_node g product_id \<Longrightarrow> product_id \<noteq> tag \<Longrightarrow>
   map_of (g_adj (add_tag product_id tag g)) product_id =
     map_option (dict_set tag ''HAS TAG'') (map_of (g_adj g) product_id)"
  by (simp add: adj_add_tag map_of_set_nbr adj_add_node)

subsection \<open>The tags of a product\<close>

lemma has_node_fold_tags:
  "has_node g product_id \<Longrightarrow>
   has_node (fold (add_tag product_id) ts g) m \<longleftrightarrow> has_node g m \<or> m \<in> set ts"
  by (induction ts arbitrary: g) (auto simp: has_node_add_tag)

lemma node_fold_tags:
  "has_node g product_id \<Longrightarrow>
   map_of (g_node (fold (add_tag product_id) ts g)) m =
     (if has_node g m then map_of (g_node g) m else if m \<in> set ts then Some Tag else None)"
proof (induction ts arbitrary: g)
  case Nil
  then show ?case by (simp add: has_node_def)
next
  case (Cons t ts)
  have "has_node (add_tag product_id t g) product_id"
    using Cons.prems by (simp add: has_node_add_tag)
  from Cons.IH [OF this] Cons.prems show ?case
    by (auto simp: has_node_add_tag node_add_tag)
qed

lemma adj_fold_tags_other:
  "has_node g product_id \<Longrightarrow> m \<noteq> product_id \<Longrightarrow> m \<notin> set ts \<Longrightarrow>
   map_of (g_adj (fold (add_tag product_id) ts g)) m = map_of (g_adj g) m"
  by (induction ts arbitrary: g) (simp_all add: has_node_add_tag adj_add_tag_other)

lemma adj_fold_tags_self:
  "has_node g product_id \<Longrightarrow> product_id \<notin> set ts \<Longrightarrow>
   map_of (g_adj g) product_id = Some nb0 \<Longrightarrow> distinct (map fst nb0) \<Longrightarrow>
   \<exists>nb. map_of (g_adj (fold (add_tag product_id) ts g)) product_id = Some nb
     \<and> distinct (map fst nb)
     \<and> set nb = {e \<in> set nb0. fst e \<notin> set ts} \<union> (\<lambda>t. (t, ''HAS TAG'')) ` set ts"
proof (induction ts arbitrary: g nb0)
  case Nil
  then show ?case by simp
next
  case (Cons t ts)
  let ?g = "add_tag product_id t g"
  let ?nb = "dict_set t ''HAS TAG'' nb0"
  have h: "has_node ?g product_id"
    using Cons.prems(1) by (simp add: has_node_add_tag)
  have n: "product_id \<notin> set ts" and ne: "product_id \<noteq> t"
    using Cons.prems(2) by auto
  have a: "map_of (g_adj ?g) product_id = Some ?nb"
    using Cons.prems(1,3) ne by (simp add: adj_add_tag_self)
  have d: "distinct (map fst ?nb)"
    using Cons.prems(4) by (rule distinct_dict_set)
  from Cons.IH [OF h n a d] obtain nb where
    nb: "map_of (g_adj (fold (add_tag product_id) ts ?g)) product_id = Some nb"
      "distinct (map fst nb)"
      "set nb = {e \<in> set ?nb. fst e \<notin> set ts} \<union> (\<lambda>t. (t, ''HAS TAG'')) ` set ts"
    by blast
  have "set ?nb = insert (t, ''HAS TAG'') {e \<in> set nb0. fst e \<noteq> t}"
    using Cons.prems(4) by (rule set_dict_set_distinct)
  with nb(3) have "set nb = {e \<in> set nb0. fst e \<notin> set (t # ts)}
      \<union> (\<lambda>t. (t, ''HAS TAG'')) ` set (t # ts)"
    by auto
  with nb(1,2) show ?case by simp
qed

subsection \<open>One product\<close>

lemma add_product_unfold:
  "add_product g p =
     fold (add_tag (p_id p)) (p_tags p)
       (add_edge (if has_node (add_node g (p_id p) (product_data p)) (p_category p)
                  then add_node g (p_id p) (product_data p)
                  else add_node (add_node g (p_id p) (product_data p)) (p_category p) Category)
          (p_id p) (p_category p) ''IS A'')"
  by (simp add: add_product_def Let_def)

lemma has_node_add_product:
  "has_node (add_product g p) m \<longleftrightarrow>
     has_node g m \<or> m = p_id p \<or> m = p_category p \<or> m \<in> set (p_tags p)"
proof -
  let ?g1 = "add_node g (p_id p) (product_data p)"
  let ?g2 = "if has_node ?g1 (p_category p) then ?g1 else add_node ?g1 (p_category p) Category"
  have i: "has_node ?g2 (p_id p)" and c: "has_node ?g2 (p_category p)"
    by (simp_all add: has_node_add_node)
  have "has_node (add_edge ?g2 (p_id p) (p_category p) ''IS A'') m \<longleftrightarrow>
      has_node g m \<or> m = p_id p \<or> m = p_category p" for m
    using i c by (auto simp: has_node_add_edge has_node_add_node)
  then show ?thesis
    unfolding add_product_unfold by (subst has_node_fold_tags) auto
qed

lemma node_add_product:
  "map_of (g_node (add_product g p)) m =
     (if m = p_id p then Some (product_data p)
      else if has_node g m then map_of (g_node g) m
      else if m = p_category p then Some Category
      else if m \<in> set (p_tags p) then Some Tag
      else None)"
proof -
  define g1 where "g1 = add_node g (p_id p) (product_data p)"
  define g2 where "g2 = (if has_node g1 (p_category p) then g1 else add_node g1 (p_category p) Category)"
  define g3 where "g3 = add_edge g2 (p_id p) (p_category p) ''IS A''"
  have i: "has_node g2 (p_id p)" and c: "has_node g2 (p_category p)"
    by (simp_all add: g2_def g1_def has_node_add_node)
  have h3: "has_node g3 m \<longleftrightarrow> has_node g m \<or> m = p_id p \<or> m = p_category p"
    using i c by (auto simp: g3_def g2_def g1_def has_node_add_edge has_node_add_node)
  have "g_node g3 = g_node g2"
    unfolding g3_def using i c by (rule node_add_edge)
  moreover have "map_of (g_node g2) m =
     (if m = p_id p then Some (product_data p)
      else if has_node g m then map_of (g_node g) m
      else if m = p_category p then Some Category
      else None)"
    by (auto simp: g2_def g1_def node_add_node has_node_add_node has_node_def)
  ultimately have n3: "map_of (g_node g3) m =
     (if m = p_id p then Some (product_data p)
      else if has_node g m then map_of (g_node g) m
      else if m = p_category p then Some Category
      else None)"
    by simp
  have "has_node g3 (p_id p)"
    using i c by (simp add: g3_def has_node_add_edge)
  from node_fold_tags [OF this, of "p_tags p" m]
  have "map_of (g_node (fold (add_tag (p_id p)) (p_tags p) g3)) m =
     (if has_node g3 m then map_of (g_node g3) m
      else if m \<in> set (p_tags p) then Some Tag else None)" .
  also have "\<dots> =
     (if m = p_id p then Some (product_data p)
      else if has_node g m then map_of (g_node g) m
      else if m = p_category p then Some Category
      else if m \<in> set (p_tags p) then Some Tag
      else None)"
    unfolding h3 n3 by simp
  finally show ?thesis
    unfolding add_product_unfold g3_def g2_def g1_def .
qed

lemma adj_add_product_other:
  assumes "m \<noteq> p_id p" and "m \<noteq> p_category p" and "m \<notin> set (p_tags p)"
  shows "map_of (g_adj (add_product g p)) m = map_of (g_adj g) m"
proof -
  let ?g1 = "add_node g (p_id p) (product_data p)"
  let ?g2 = "if has_node ?g1 (p_category p) then ?g1 else add_node ?g1 (p_category p) Category"
  let ?g3 = "add_edge ?g2 (p_id p) (p_category p) ''IS A''"
  have i: "has_node ?g2 (p_id p)" and c: "has_node ?g2 (p_category p)"
    by (simp_all add: has_node_add_node)
  have "map_of (g_adj ?g3) m = map_of (g_adj ?g2) m"
    using i c assms by (simp add: add_edge_present map_of_set_nbr)
  also have "\<dots> = map_of (g_adj g) m"
    using assms by (simp add: adj_add_node)
  finally have a3: "map_of (g_adj ?g3) m = map_of (g_adj g) m" .
  have "has_node ?g3 (p_id p)"
    using i c by (simp add: has_node_add_edge)
  from adj_fold_tags_other [OF this assms(1,3)] a3 show ?thesis
    unfolding add_product_unfold by simp
qed

lemma adj_add_product_self:
  assumes fresh: "\<not> has_node g (p_id p)"
    and ic: "p_id p \<noteq> p_category p"
    and it: "p_id p \<notin> set (p_tags p)"
    and ct: "p_category p \<notin> set (p_tags p)"
  shows "\<exists>nb. map_of (g_adj (add_product g p)) (p_id p) = Some nb
     \<and> distinct (map fst nb)
     \<and> set nb = insert (p_category p, ''IS A'') ((\<lambda>t. (t, ''HAS TAG'')) ` set (p_tags p))"
proof -
  let ?g1 = "add_node g (p_id p) (product_data p)"
  let ?g2 = "if has_node ?g1 (p_category p) then ?g1 else add_node ?g1 (p_category p) Category"
  let ?g3 = "add_edge ?g2 (p_id p) (p_category p) ''IS A''"
  have i: "has_node ?g2 (p_id p)" and c: "has_node ?g2 (p_category p)"
    by (simp_all add: has_node_add_node)
  have "map_of (g_adj ?g1) (p_id p) = Some []"
    using fresh by (simp add: adj_add_node)
  then have a2: "map_of (g_adj ?g2) (p_id p) = Some []"
    using ic by (simp add: adj_add_node)
  have a3: "map_of (g_adj ?g3) (p_id p) = Some [(p_category p, ''IS A'')]"
    using i c ic a2 by (simp add: add_edge_present map_of_set_nbr)
  have h3: "has_node ?g3 (p_id p)"
    using i c by (simp add: has_node_add_edge)
  have "distinct (map fst [(p_category p, ''IS A'')])" by simp
  from adj_fold_tags_self [OF h3 it a3 this] ct show ?thesis
    unfolding add_product_unfold by auto
qed

subsection \<open>A sequence of products\<close>

lemma has_node_foldl:
  "has_node (foldl add_product g ps) m \<longleftrightarrow>
     has_node g m \<or> (\<exists>p \<in> set ps. m = p_id p \<or> m = p_category p \<or> m \<in> set (p_tags p))"
  by (induction ps arbitrary: g) (auto simp: has_node_add_product)

lemma adj_foldl_other:
  "\<forall>p \<in> set ps. m \<noteq> p_id p \<and> m \<noteq> p_category p \<and> m \<notin> set (p_tags p) \<Longrightarrow>
   map_of (g_adj (foldl add_product g ps)) m = map_of (g_adj g) m"
  by (induction ps arbitrary: g) (simp_all add: adj_add_product_other)

lemma node_foldl_other:
  "\<forall>p \<in> set ps. m \<noteq> p_id p \<Longrightarrow> has_node g m \<Longrightarrow>
   map_of (g_node (foldl add_product g ps)) m = map_of (g_node g) m"
proof (induction ps arbitrary: g)
  case Nil
  then show ?case by simp
next
  case (Cons q qs)
  have "has_node (add_product g q) m"
    using Cons.prems(2) by (simp add: has_node_add_product)
  moreover have "\<forall>p \<in> set qs. m \<noteq> p_id p" using Cons.prems(1) by simp
  ultimately have "map_of (g_node (foldl add_product (add_product g q) qs)) m =
      map_of (g_node (add_product g q)) m"
    by (rule Cons.IH [rotated])
  with Cons.prems show ?case by (simp add: node_add_product)
qed

lemma node_foldl_product:
  "map_of (g_node (foldl add_product g ps)) n = Some d \<Longrightarrow> is_Product d \<Longrightarrow>
   (\<exists>p \<in> set ps. n = p_id p \<and> d = product_data p) \<or> map_of (g_node g) n = Some d"
proof (induction ps arbitrary: g)
  case Nil
  then show ?case by simp
next
  case (Cons q qs)
  from Cons.IH [of "add_product g q"] Cons.prems
  have "(\<exists>p \<in> set qs. n = p_id p \<and> d = product_data p)
      \<or> map_of (g_node (add_product g q)) n = Some d"
    by simp
  then show ?case
  proof
    assume "\<exists>p \<in> set qs. n = p_id p \<and> d = product_data p"
    then show ?thesis by auto
  next
    assume "map_of (g_node (add_product g q)) n = Some d"
    with Cons.prems(2) show ?thesis
      by (auto simp: node_add_product split: if_splits)
  qed
qed

lemma keys_separate_iff:
  "keys_separate ps \<longleftrightarrow>
     distinct (map p_id ps)
     \<and> (\<forall>p \<in> set ps. \<forall>q \<in> set ps. p_category p \<noteq> p_id q
           \<and> (\<forall>t \<in> set (p_tags p). t \<noteq> p_id q \<and> t \<noteq> p_category q))"
proof -
  have "(\<forall>p \<in> set ps. p_category p \<notin> p_id ` set ps
           \<and> (\<forall>t \<in> set (p_tags p). t \<notin> p_id ` set ps \<and> t \<notin> p_category ` set ps))
      \<longleftrightarrow> (\<forall>p \<in> set ps. \<forall>q \<in> set ps. p_category p \<noteq> p_id q
           \<and> (\<forall>t \<in> set (p_tags p). t \<noteq> p_id q \<and> t \<noteq> p_category q))"
    by (intro iffI ballI conjI) (blast+)
  then show ?thesis
    by (simp add: keys_separate_def list_all_iff)
qed

lemma keys_separate_Cons: "keys_separate (q # qs) \<Longrightarrow> keys_separate qs"
  by (simp add: keys_separate_iff)

lemma adj_foldl_self:
  assumes "keys_separate ps" and "\<forall>p \<in> set ps. \<not> has_node g (p_id p)" and "p \<in> set ps"
  shows "\<exists>nb. map_of (g_adj (foldl add_product g ps)) (p_id p) = Some nb
     \<and> distinct (map fst nb)
     \<and> set nb = insert (p_category p, ''IS A'') ((\<lambda>t. (t, ''HAS TAG'')) ` set (p_tags p))"
  using assms
proof (induction ps arbitrary: g)
  case Nil
  then show ?case by simp
next
  case (Cons q qs)
  from Cons.prems(1) have d: "distinct (map p_id (q # qs))"
    and sep: "\<forall>a \<in> set (q # qs). \<forall>b \<in> set (q # qs). p_category a \<noteq> p_id b
           \<and> (\<forall>t \<in> set (p_tags a). t \<noteq> p_id b \<and> t \<noteq> p_category b)"
    unfolding keys_separate_iff by (rule conjunct1, rule conjunct2)
  have sep2: "p_category a \<noteq> p_id b \<and> (\<forall>t \<in> set (p_tags a). t \<noteq> p_id b \<and> t \<noteq> p_category b)"
    if "a \<in> set (q # qs)" and "b \<in> set (q # qs)" for a b
  proof -
    from sep that(1) have "\<forall>b \<in> set (q # qs). p_category a \<noteq> p_id b
           \<and> (\<forall>t \<in> set (p_tags a). t \<noteq> p_id b \<and> t \<noteq> p_category b)"
      by (rule bspec)
    from this that(2) show ?thesis by (rule bspec)
  qed
  have cat_id: "p_category a \<noteq> p_id b"
    if "a \<in> set (q # qs)" and "b \<in> set (q # qs)" for a b
    using sep2 [OF that] by (rule conjunct1)
  have tag_id: "t \<noteq> p_id b" and tag_cat: "t \<noteq> p_category b"
    if "a \<in> set (q # qs)" and "b \<in> set (q # qs)" and "t \<in> set (p_tags a)" for a b t
    using sep2 [OF that(1,2)] that(3) by simp_all
  have dist: "p_id q \<noteq> p_id r" if "r \<in> set qs" for r
  proof
    assume "p_id q = p_id r"
    with that have "p_id q \<in> p_id ` set qs" by (rule rev_image_eqI)
    with d show False by simp
  qed
  have q: "q \<in> set (q # qs)" by simp
  show ?case
  proof (cases "p = q")
    case True
    have fresh: "\<not> has_node g (p_id q)" using Cons.prems(2) by simp
    have ic: "p_id q \<noteq> p_category q" using cat_id [OF q q] by simp
    have it: "p_id q \<notin> set (p_tags q)" using tag_id [OF q q] by blast
    have ct: "p_category q \<notin> set (p_tags q)" using tag_cat [OF q q] by blast
    have rest: "\<forall>r \<in> set qs. p_id q \<noteq> p_id r \<and> p_id q \<noteq> p_category r
        \<and> p_id q \<notin> set (p_tags r)"
    proof
      fix r assume r: "r \<in> set qs"
      then have r': "r \<in> set (q # qs)" by simp
      have "p_id q \<noteq> p_id r" using dist [OF r] .
      moreover have "p_id q \<noteq> p_category r" using cat_id [OF r' q] by simp
      moreover have "p_id q \<notin> set (p_tags r)" using tag_id [OF r' q] by blast
      ultimately show "p_id q \<noteq> p_id r \<and> p_id q \<noteq> p_category r \<and> p_id q \<notin> set (p_tags r)"
        by simp
    qed
    have "map_of (g_adj (foldl add_product g (q # qs))) (p_id q) =
        map_of (g_adj (add_product g q)) (p_id q)"
      using adj_foldl_other [OF rest, of "add_product g q"] by simp
    with adj_add_product_self [OF fresh ic it ct] True show ?thesis by simp
  next
    case False
    with Cons.prems(3) have mem: "p \<in> set qs" by simp
    have "\<forall>r \<in> set qs. \<not> has_node (add_product g q) (p_id r)"
    proof
      fix r assume r: "r \<in> set qs"
      then have r': "r \<in> set (q # qs)" by simp
      have "\<not> has_node g (p_id r)" using Cons.prems(2) r by simp
      moreover have "p_id r \<noteq> p_id q" using dist [OF r] by simp
      moreover have "p_id r \<noteq> p_category q" using cat_id [OF q r'] by simp
      moreover have "p_id r \<notin> set (p_tags q)" using tag_id [OF q r'] by blast
      ultimately show "\<not> has_node (add_product g q) (p_id r)"
        by (simp add: has_node_add_product)
    qed
    from Cons.IH [OF keys_separate_Cons [OF Cons.prems(1)] this mem] show ?thesis by simp
  qed
qed

lemma distinct_singleton:
  assumes "distinct xs" and "set xs = {x}"
  shows "xs = [x]"
proof (cases xs)
  case Nil
  with assms(2) show ?thesis by simp
next
  case (Cons y ys)
  with assms have y: "y = x" and sub: "set ys \<subseteq> {x}" and nin: "y \<notin> set ys"
    by auto
  from sub nin y have "ys = []" by (cases ys) auto
  with Cons y show ?thesis by simp
qed

lemma label_filter:
  assumes "set nb = insert (c, a) ((\<lambda>t. (t, b)) ` T)" and "a \<noteq> b"
  shows "set (filter (\<lambda>e. snd e = a) nb) = {(c, a)}"
    and "set (filter (\<lambda>e. snd e = b) nb) = (\<lambda>t. (t, b)) ` T"
  using assms by auto

lemma labels_differ: "''IS A'' \<noteq> ''HAS TAG''"
  by simp

lemma is_a_edges_single:
  assumes "distinct (map fst nb)"
    and "set nb = insert (c, ''IS A'') ((\<lambda>t. (t, ''HAS TAG'')) ` set ts)"
  shows "is_a_edges nb = [(c, ''IS A'')]"
proof -
  have "distinct nb" using assms(1) by (simp add: distinct_map)
  then have "distinct (is_a_edges nb)" by (simp add: is_a_edges_def)
  moreover have "set (is_a_edges nb) = {(c, ''IS A'')}"
    unfolding is_a_edges_def using assms(2) labels_differ by (rule label_filter(1))
  ultimately show ?thesis by (rule distinct_singleton)
qed

lemma has_tag_edges_set:
  assumes "set nb = insert (c, ''IS A'') ((\<lambda>t. (t, ''HAS TAG'')) ` set ts)"
  shows "set (has_tag_edges nb) = (\<lambda>t. (t, ''HAS TAG'')) ` set ts"
  unfolding has_tag_edges_def using assms labels_differ by (rule label_filter(2))

text \<open>
  Claim C9, as amended. When the product ids are distinct, no category is a
  product id and no tag is a product id or a category, every product node of
  the built graph has exactly one IS A edge, to its category, and one HAS TAG
  edge for each of its distinct tags, and no other edge.
\<close>

theorem product_edges_when_keys_separate:
  assumes "keys_separate ps"
    and "map_of (g_node (build_graph ps)) n = Some (Product br cat pr st ts)"
  shows "\<exists>nb. map_of (g_adj (build_graph ps)) n = Some nb
     \<and> distinct (map fst nb)
     \<and> set nb = insert (cat, ''IS A'') ((\<lambda>t. (t, ''HAS TAG'')) ` set ts)
     \<and> is_a_edges nb = [(cat, ''IS A'')]
     \<and> set (has_tag_edges nb) = (\<lambda>t. (t, ''HAS TAG'')) ` set ts"
proof -
  have "map_of (g_node empty_graph) n = None" by (simp add: empty_graph_def)
  with node_foldl_product [of empty_graph ps n "Product br cat pr st ts"] assms(2)
  obtain p where p: "p \<in> set ps" "n = p_id p" "Product br cat pr st ts = product_data p"
    by (auto simp: build_graph_def)
  then have c: "cat = p_category p" and t: "ts = p_tags p"
    by (simp_all add: product_data_def)
  have "\<forall>p \<in> set ps. \<not> has_node empty_graph (p_id p)"
    by (simp add: has_node_def empty_graph_def)
  from adj_foldl_self [OF assms(1) this p(1)] obtain nb where
    nb: "map_of (g_adj (build_graph ps)) n = Some nb" "distinct (map fst nb)"
      "set nb = insert (cat, ''IS A'') ((\<lambda>t. (t, ''HAS TAG'')) ` set ts)"
    unfolding build_graph_def p(2) c t by blast
  from nb is_a_edges_single [OF nb(2,3)] has_tag_edges_set [OF nb(3)] show ?thesis
    by blast
qed

theorem product_edges_when_keys_separate_witness:
  "keys_separate [prodA, prodB, prodC]
   \<and> map_of (g_node (build_graph [prodA, prodB, prodC])) ''B'' =
       Some (Product ''X'' ''shoes'' (Finite 40) True [''running'', ''light''])
   \<and> (\<exists>nb. map_of (g_adj (build_graph [prodA, prodB, prodC])) ''B'' = Some nb
     \<and> distinct (map fst nb)
     \<and> set nb = insert (''shoes'', ''IS A'')
                     ((\<lambda>t. (t, ''HAS TAG'')) ` set [''running'', ''light''])
     \<and> is_a_edges nb = [(''shoes'', ''IS A'')]
     \<and> set (has_tag_edges nb) = (\<lambda>t. (t, ''HAS TAG'')) ` set [''running'', ''light''])"
proof -
  have k: "keys_separate [prodA, prodB, prodC]"
    by code_simp
  have b: "map_of (g_node (build_graph [prodA, prodB, prodC])) ''B'' =
      Some (Product ''X'' ''shoes'' (Finite 40) True [''running'', ''light''])"
    by code_simp
  show ?thesis
    using conjI [OF k conjI [OF b product_edges_when_keys_separate [OF k b]]] .
qed

text \<open>
  A product with the name of its category among its tags: the edge to that
  node takes the label HAS TAG, and the product has no IS A edge.
\<close>

theorem tag_equal_to_category_counterexample:
  "map_of (g_node tag_is_category_graph) ''P1'' =
     Some (Product ''X'' ''shoes'' (Finite 50) True [''shoes'', ''running''])
   \<and> map_of (g_adj tag_is_category_graph) ''P1'' =
     Some [(''shoes'', ''HAS TAG''), (''running'', ''HAS TAG'')]
   \<and> is_a_edges [(''shoes'', ''HAS TAG''), (''running'', ''HAS TAG'')] = []"
  by code_simp

section \<open>The build\<close>

lemma parse_row_Inl: "parse_row float_of r = Inl e \<longleftrightarrow> e = ValueError \<and> float_of (r_price r) = None"
  by (auto simp: parse_row_def split: option.splits)

lemma parse_row_Inr:
  "parse_row float_of r = Inr p \<Longrightarrow>
     p_id p = r_id r \<and> p_category p = r_category r \<and> p_brand p = r_brand r
     \<and> float_of (r_price r) = Some (p_price p)
     \<and> p_stock p = (lower (r_stock r) = ''true'')
     \<and> p_tags p = split_on CHR '';'' (r_tags r)"
  by (auto simp: parse_row_def split: option.splits)

lemma create_loop_Inl:
  "create_loop float_of g rows = Inl e \<longleftrightarrow>
     e = ValueError \<and> (\<exists>r \<in> set rows. float_of (r_price r) = None)"
proof (induction rows arbitrary: g)
  case Nil
  then show ?case by simp
next
  case (Cons r rows)
  show ?case
  proof (cases "parse_row float_of r")
    case (Inl e')
    then have "e' = ValueError" "float_of (r_price r) = None"
      by (simp_all add: parse_row_Inl)
    with Inl show ?thesis by auto
  next
    case (Inr p)
    then have "float_of (r_price r) \<noteq> None" by (auto dest: parse_row_Inr)
    with Inr Cons.IH [of "add_product g p"] show ?thesis by auto
  qed
qed

lemma create_loop_Inr:
  "(\<forall>r \<in> set rows. float_of (r_price r) \<noteq> None) \<Longrightarrow>
   \<exists>ps. list_all2 (\<lambda>r p. parse_row float_of r = Inr p) rows ps
     \<and> create_loop float_of g rows = Inr (foldl add_product g ps)"
proof (induction rows arbitrary: g)
  case Nil
  then show ?case by simp
next
  case (Cons r rows)
  from Cons.prems obtain pr where "float_of (r_price r) = Some pr" by auto
  then obtain p where p: "parse_row float_of r = Inr p"
    by (simp add: parse_row_def)
  from Cons.prems have "\<forall>r \<in> set rows. float_of (r_price r) \<noteq> None" by simp
  from Cons.IH [OF this, of "add_product g p"] obtain ps where
    "list_all2 (\<lambda>r p. parse_row float_of r = Inr p) rows ps"
    "create_loop float_of (add_product g p) rows = Inr (foldl add_product (add_product g p) ps)"
    by blast
  with p have "list_all2 (\<lambda>r p. parse_row float_of r = Inr p) (r # rows) (p # ps)
     \<and> create_loop float_of g (r # rows) = Inr (foldl add_product g (p # ps))"
    by simp
  then show ?case by blast
qed

text \<open>
  Claim C6, as amended. \<open>createGraph\<close> fails exactly when the price of some row
  is not a number for \<open>float\<close>, with the \<open>ValueError\<close> of \<open>float\<close> and no other
  error. The stock cell never makes it fail: when every price is a number the
  graph is built from all the rows, each product in stock exactly when its
  stock cell is "true" up to case.
\<close>

theorem createGraph_fails_on_price_only:
  "(createGraph float_of rows = Inl ValueError \<longleftrightarrow> (\<exists>r \<in> set rows. float_of (r_price r) = None))
   \<and> (\<forall>e. createGraph float_of rows = Inl e \<longrightarrow> e = ValueError)
   \<and> ((\<forall>r \<in> set rows. float_of (r_price r) \<noteq> None) \<longrightarrow>
        (\<exists>ps. createGraph float_of rows = Inr (build_graph ps)
           \<and> list_all2 (\<lambda>r p. parse_row float_of r = Inr p
                  \<and> p_stock p = (lower (r_stock r) = ''true'')) rows ps))"
proof (intro conjI allI impI)
  show "createGraph float_of rows = Inl ValueError \<longleftrightarrow> (\<exists>r \<in> set rows. float_of (r_price r) = None)"
    by (simp add: createGraph_def create_loop_Inl)
next
  fix e assume "createGraph float_of rows = Inl e"
  then show "e = ValueError" by (simp add: createGraph_def create_loop_Inl)
next
  assume "\<forall>r \<in> set rows. float_of (r_price r) \<noteq> None"
  from create_loop_Inr [OF this, of empty_graph] obtain ps where
    ps: "list_all2 (\<lambda>r p. parse_row float_of r = Inr p) rows ps"
      "create_loop float_of empty_graph rows = Inr (foldl add_product empty_graph ps)"
    by blast
  from ps(1) have "list_all2 (\<lambda>r p. parse_row float_of r = Inr p
      \<and> p_stock p = (lower (r_stock r) = ''true'')) rows ps"
    by (rule list_all2_mono) (auto dest: parse_row_Inr)
  with ps(2) show "\<exists>ps. createGraph float_of rows = Inr (build_graph ps)
           \<and> list_all2 (\<lambda>r p. parse_row float_of r = Inr p
                  \<and> p_stock p = (lower (r_stock r) = ''true'')) rows ps"
    by (auto simp: createGraph_def build_graph_def)
qed

theorem createGraph_fails_on_price_only_witness:
  "createGraph float_digits [odd_stock_row, bad_price_row] = Inl ValueError
   \<and> createGraph float_digits [odd_stock_row] \<noteq> Inl ValueError"
proof -
  have bad: "float_digits (r_price bad_price_row) = None"
    by code_simp
  have good: "float_digits (r_price odd_stock_row) \<noteq> None"
    by code_simp
  from createGraph_fails_on_price_only [of float_digits "[odd_stock_row, bad_price_row]"] bad
  have 1: "createGraph float_digits [odd_stock_row, bad_price_row] = Inl ValueError"
    by simp
  from createGraph_fails_on_price_only [of float_digits "[odd_stock_row]"] good
  have 2: "createGraph float_digits [odd_stock_row] \<noteq> Inl ValueError"
    by simp
  from 1 2 show ?thesis ..
qed

text \<open>A row whose stock cell is "maybe" is built as a product out of stock.\<close>

theorem createGraph_odd_stock_counterexample:
  "createGraph float_digits [odd_stock_row] =
     Inr (build_graph [\<lparr>p_id = ''P1'', p_category = ''shoes'', p_brand = ''X'',
                        p_price = Finite 50, p_stock = False, p_tags = [''running'']\<rparr>])"
  by code_simp

text \<open>
  Claim C5 on the code. The tag cell "running; light;" gives the tags "running",
  " light" with its space and the empty string, each with a tag node and a
  HAS TAG edge.
\<close>

theorem createGraph_keeps_raw_tags:
  "createGraph float_digits [spaced_tags_row] =
     Inr \<lparr>g_node = [(''P3'', Product ''X'' ''shoes'' (Finite 50) True
                              [''running'', '' light'', '''']),
                    (''shoes'', Category), (''running'', Tag), ('' light'', Tag), ('''', Tag)],
          g_adj = [(''P3'', [(''shoes'', ''IS A''), (''running'', ''HAS TAG''),
                             ('' light'', ''HAS TAG''), ('''', ''HAS TAG'')]),
                   (''shoes'', [(''P3'', ''IS A'')]),
                   (''running'', [(''P3'', ''HAS TAG'')]),
                   ('' light'', [(''P3'', ''HAS TAG'')]),
                   ('''', [(''P3'', ''HAS TAG'')])]\<rparr>"
  by code_simp

section \<open>The traversal\<close>

lemma graph_ok_nbrs:
  assumes "graph_ok g" and "(n, nb) \<in> set (g_adj g)" and "x \<in> set nb"
  shows "fst x \<in> fst ` set (g_node g)"
proof -
  from assms(1) have "\<forall>e \<in> set (g_adj g). \<forall>x \<in> set (snd e). fst x \<in> fst ` set (g_node g)"
    by (simp add: graph_ok_iff)
  from this assms(2) have "\<forall>x \<in> set (snd (n, nb)). fst x \<in> fst ` set (g_node g)"
    by (rule bspec)
  with assms(3) show ?thesis by simp
qed

lemma bfs_loop_distinct:
  "bfs_loop g start visited queue productList = Inr ps \<Longrightarrow>
   distinct productList \<Longrightarrow> set productList \<subseteq> visited \<Longrightarrow> distinct ps"
proof (induction g start visited queue productList rule: bfs_loop.induct)
  case (1 g start visited productList)
  then show ?case by simp
next
  case (2 g start visited node queue productList)
  show ?case
  proof (cases "node \<in> visited")
    case True
    with 2 show ?thesis by simp
  next
    case False
    with "2.prems"(1) obtain nodeData nbs where
      nd: "map_of (g_node g) node = Some nodeData" and nb: "neighbors g node = Inr nbs"
      by (auto split: option.splits sum.splits)
    let ?pl = "if node \<noteq> start \<and> is_Product nodeData then productList @ [node] else productList"
    from "2.prems"(1) False nd nb have run:
      "bfs_loop g start (insert node visited)
         (queue @ filter (\<lambda>neighbor. neighbor \<notin> insert node visited) nbs) ?pl = Inr ps"
      by simp
    from "2.prems"(2,3) False have d: "distinct ?pl" and s: "set ?pl \<subseteq> insert node visited"
      by auto
    from "2.IH"(2) [OF False nd nb run d s] show ?thesis .
  qed
qed

lemma bfs_loop_returns:
  "graph_ok g \<Longrightarrow> set queue \<subseteq> fst ` set (g_node g) \<Longrightarrow>
   \<exists>ps. bfs_loop g start visited queue productList = Inr ps"
proof (induction g start visited queue productList rule: bfs_loop.induct)
  case (1 g start visited productList)
  then show ?case by simp
next
  case (2 g start visited node queue productList)
  show ?case
  proof (cases "node \<in> visited")
    case True
    with 2 show ?thesis by simp
  next
    case False
    from "2.prems" have nin: "node \<in> fst ` set (g_node g)" by simp
    then obtain nodeData where nd: "map_of (g_node g) node = Some nodeData"
      by (metis map_of_eq_None_iff not_Some_eq)
    from nin "2.prems"(1) obtain nb where adj: "map_of (g_adj g) node = Some nb"
      by (auto simp: graph_ok_iff)
    then have nbs: "neighbors g node = Inr (map fst nb)"
      by (simp add: neighbors_def)
    from adj have "(node, nb) \<in> set (g_adj g)" by (rule map_of_SomeD)
    with "2.prems"(1) have sub: "fst ` set nb \<subseteq> fst ` set (g_node g)"
      by (auto dest: graph_ok_nbrs)
    with "2.prems"(2) have q: "set (queue @ filter (\<lambda>neighbor. neighbor \<notin> insert node visited)
        (map fst nb)) \<subseteq> fst ` set (g_node g)"
      by auto
    from "2.IH"(2) [OF False nd nbs "2.prems"(1) q] False nd nbs show ?thesis by simp
  qed
qed

text \<open>
  Claim C10. Whatever the graph and the start, a list that \<open>bfsSearch\<close> returns
  has no duplicates; and on a well-formed graph with the start among its nodes,
  \<open>bfsSearch\<close> returns a list.
\<close>

theorem bfsSearch_no_duplicates:
  "(\<forall>ps. bfsSearch g start = Inr ps \<longrightarrow> distinct ps)
   \<and> (graph_ok g \<and> has_node g start \<longrightarrow> (\<exists>ps. bfsSearch g start = Inr ps))"
proof (intro conjI allI impI)
  fix ps assume "bfsSearch g start = Inr ps"
  then show "distinct ps"
    unfolding bfsSearch_def by (rule bfs_loop_distinct) simp_all
next
  assume "graph_ok g \<and> has_node g start"
  then show "\<exists>ps. bfsSearch g start = Inr ps"
    unfolding bfsSearch_def by (intro bfs_loop_returns) (simp_all add: has_node_iff)
qed

theorem bfsSearch_no_duplicates_witness:
  "graph_ok scenario_graph \<and> has_node scenario_graph ''A''
   \<and> bfsSearch scenario_graph ''A'' = Inr [''B'', ''C''] \<and> distinct [''B'', ''C'']"
proof -
  have ok: "graph_ok scenario_graph \<and> has_node scenario_graph ''A''"
    by code_simp
  have run: "bfsSearch scenario_graph ''A'' = Inr [''B'', ''C'']"
    by code_simp
  from bfsSearch_no_duplicates [of scenario_graph "''A''"] ok run show ?thesis
    by blast
qed

section \<open>The ranking\<close>

subsection \<open>The sort\<close>

lemma sort_reverse_sorted:
  "sorted_wrt (\<lambda>a b. key b \<le> key a) (sort_reverse key xs)"
proof -
  have "sorted (map key (sort_key key (rev xs)))" by (rule sorted_sort_key)
  then have "sorted_wrt (\<lambda>a b. key a \<le> key b) (sort_key key (rev xs))"
    by (simp add: sorted_wrt_map)
  then show ?thesis
    by (simp add: sort_reverse_def sorted_wrt_rev)
qed

lemma sort_reverse_stable:
  "filter (\<lambda>x. key x = k) (sort_reverse key xs) = filter (\<lambda>x. key x = k) xs"
proof -
  have "filter (\<lambda>x. key x = k) (sort_reverse key xs) =
      rev (filter (\<lambda>x. key x = k) (sort_key key (rev xs)))"
    by (simp add: sort_reverse_def rev_filter)
  also have "\<dots> = rev (filter (\<lambda>x. key x = k) (rev xs))"
    by (simp only: sort_key_stable)
  also have "\<dots> = filter (\<lambda>x. key x = k) xs"
    by (simp add: rev_filter)
  finally show ?thesis .
qed

lemma set_sort_reverse: "set (sort_reverse key xs) = set xs"
  by (simp add: sort_reverse_def)

lemma length_sort_reverse: "length (sort_reverse key xs) = length xs"
  by (simp add: sort_reverse_def)

subsection \<open>The loop over the candidates\<close>

lemma valid_loop_Inr:
  "valid_loop g r maxPrice requiredTags preferredBrand cands acc = Inr valid \<Longrightarrow>
   \<exists>new. valid = acc @ new
     \<and> map fst new =
         filter (\<lambda>p. checkConstraints g p maxPrice requiredTags preferredBrand = Inr True) cands
     \<and> (\<forall>x \<in> set new. scoreCandidate g r (fst x) = Inr (fst (snd x))
            \<and> explainRules g r (fst x) requiredTags = Inr (snd (snd x)))"
proof (induction cands arbitrary: acc)
  case Nil
  then show ?case by simp
next
  case (Cons p cands)
  from Cons.prems obtain b where b: "checkConstraints g p maxPrice requiredTags preferredBrand = Inr b"
    by (auto split: sum.splits)
  show ?case
  proof (cases b)
    case False
    with b Cons.prems have "valid_loop g r maxPrice requiredTags preferredBrand cands acc = Inr valid"
      by simp
    from Cons.IH [OF this] b False show ?thesis by auto
  next
    case True
    with b Cons.prems obtain s rl where s: "scoreCandidate g r p = Inr s"
      and rl: "explainRules g r p requiredTags = Inr rl"
      by (auto split: sum.splits)
    with b True Cons.prems have
      "valid_loop g r maxPrice requiredTags preferredBrand cands (acc @ [(p, s, rl)]) = Inr valid"
      by simp
    from Cons.IH [OF this] obtain new where new: "valid = (acc @ [(p, s, rl)]) @ new"
      "map fst new =
         filter (\<lambda>p. checkConstraints g p maxPrice requiredTags preferredBrand = Inr True) cands"
      "\<forall>x \<in> set new. scoreCandidate g r (fst x) = Inr (fst (snd x))
            \<and> explainRules g r (fst x) requiredTags = Inr (snd (snd x))"
      by blast
    let ?new = "(p, s, rl) # new"
    have "valid = acc @ ?new" using new(1) by simp
    moreover have "map fst ?new =
        filter (\<lambda>p. checkConstraints g p maxPrice requiredTags preferredBrand = Inr True) (p # cands)"
      using new(2) b True by simp
    moreover have "\<forall>x \<in> set ?new. scoreCandidate g r (fst x) = Inr (fst (snd x))
            \<and> explainRules g r (fst x) requiredTags = Inr (snd (snd x))"
      using new(3) s rl by simp
    ultimately show ?thesis by blast
  qed
qed

subsection \<open>When the functions return\<close>

lemma checkConstraints_returns:
  "map_of (g_node g) p = Some d \<Longrightarrow> is_Product d \<Longrightarrow>
   \<exists>b. checkConstraints g p maxPrice requiredTags preferredBrand = Inr b"
  by (cases d) (auto simp: checkConstraints_def)

lemma scoreCandidate_returns:
  "map_of (g_node g) r = Some (Product rbr rcat rpr rst rts) \<Longrightarrow>
   map_of (g_node g) p = Some d \<Longrightarrow> is_Product d \<Longrightarrow> map_of (g_adj g) rcat \<noteq> None \<Longrightarrow>
   \<exists>s. scoreCandidate g r p = Inr s"
  by (cases d) (auto simp: scoreCandidate_def neighbors_def Let_def)

lemma explainRules_returns:
  "map_of (g_node g) r = Some (Product rbr rcat rpr rst rts) \<Longrightarrow>
   map_of (g_node g) p = Some d \<Longrightarrow> is_Product d \<Longrightarrow>
   \<exists>rl. explainRules g r p requiredTags = Inr rl"
  by (cases d) (simp_all add: explainRules_def Let_def)

lemma valid_loop_returns:
  assumes "map_of (g_node g) r = Some (Product rbr rcat rpr rst rts)"
    and "map_of (g_adj g) rcat \<noteq> None"
  shows "\<forall>p \<in> set cands. \<exists>d. map_of (g_node g) p = Some d \<and> is_Product d \<Longrightarrow>
    \<exists>valid. valid_loop g r maxPrice requiredTags preferredBrand cands acc = Inr valid"
proof (induction cands arbitrary: acc)
  case Nil
  then show ?case by simp
next
  case (Cons p cands)
  from Cons.prems obtain d where d: "map_of (g_node g) p = Some d" "is_Product d"
    by auto
  from Cons.prems have rest: "\<forall>p \<in> set cands. \<exists>d. map_of (g_node g) p = Some d \<and> is_Product d"
    by simp
  from checkConstraints_returns [OF d] obtain b where
    b: "checkConstraints g p maxPrice requiredTags preferredBrand = Inr b" by blast
  from scoreCandidate_returns [OF assms(1) d assms(2)] obtain s where
    s: "scoreCandidate g r p = Inr s" by blast
  from explainRules_returns [OF assms(1) d] obtain rl where
    rl: "explainRules g r p requiredTags = Inr rl" by blast
  show ?case
  proof (cases b)
    case True
    with b s rl Cons.IH [OF rest, of "acc @ [(p, s, rl)]"] show ?thesis by simp
  next
    case False
    with b Cons.IH [OF rest, of acc] show ?thesis by simp
  qed
qed

lemma bfs_loop_products:
  "bfs_loop g start visited queue productList = Inr ps \<Longrightarrow>
   \<forall>p \<in> set productList. \<exists>d. map_of (g_node g) p = Some d \<and> is_Product d \<Longrightarrow>
   \<forall>p \<in> set ps. \<exists>d. map_of (g_node g) p = Some d \<and> is_Product d"
proof (induction g start visited queue productList rule: bfs_loop.induct)
  case (1 g start visited productList)
  then show ?case by simp
next
  case (2 g start visited node queue productList)
  show ?case
  proof (cases "node \<in> visited")
    case True
    with 2 show ?thesis by simp
  next
    case False
    with "2.prems"(1) obtain nodeData nbs where
      nd: "map_of (g_node g) node = Some nodeData" and nb: "neighbors g node = Inr nbs"
      by (auto split: option.splits sum.splits)
    let ?pl = "if node \<noteq> start \<and> is_Product nodeData then productList @ [node] else productList"
    from "2.prems"(1) False nd nb have run:
      "bfs_loop g start (insert node visited)
         (queue @ filter (\<lambda>neighbor. neighbor \<notin> insert node visited) nbs) ?pl = Inr ps"
      by simp
    from "2.prems"(2) nd have "\<forall>p \<in> set ?pl. \<exists>d. map_of (g_node g) p = Some d \<and> is_Product d"
      by auto
    from "2.IH"(2) [OF False nd nb run this] show ?thesis .
  qed
qed

lemma bfsSearch_products:
  assumes "bfsSearch g start = Inr ps"
  shows "\<forall>p \<in> set ps. \<exists>d. map_of (g_node g) p = Some d \<and> is_Product d"
proof -
  from assms have "bfs_loop g start {} [start] [] = Inr ps"
    by (simp only: bfsSearch_def)
  then show ?thesis
    by (rule bfs_loop_products) simp
qed

lemma bfsSearch_returns:
  "graph_ok g \<Longrightarrow> has_node g start \<Longrightarrow> \<exists>ps. bfsSearch g start = Inr ps"
  unfolding bfsSearch_def by (intro bfs_loop_returns) (simp_all add: has_node_iff)

lemma build_graph_category_node:
  assumes "map_of (g_node (build_graph ps)) n = Some (Product br cat pr st ts)"
  shows "has_node (build_graph ps) cat"
proof -
  have "map_of (g_node empty_graph) n = None" by (simp add: empty_graph_def)
  with node_foldl_product [of empty_graph ps n "Product br cat pr st ts"] assms
  obtain p where "p \<in> set ps" "Product br cat pr st ts = product_data p"
    by (auto simp: build_graph_def)
  then have "p \<in> set ps" "cat = p_category p"
    by (simp_all add: product_data_def)
  then show ?thesis
    unfolding build_graph_def has_node_foldl by blast
qed

lemma findAlternatives_out_of_stock:
  assumes "map_of (g_node g) r = Some (Product br cat pr False ts)"
  shows "findAlternatives g r maxPrice requiredTags preferredBrand =
     (case bfsSearch g r of
        Inl e \<Rightarrow> Inl e
      | Inr cands \<Rightarrow>
          (case valid_loop g r maxPrice requiredTags preferredBrand cands [] of
             Inl e \<Rightarrow> Inl e
           | Inr valid \<Rightarrow>
               Inr (map (\<lambda>(productId, score, rules). Tuple3 productId score rules)
                      (take 3 (sort_reverse (\<lambda>x. fst (snd x)) valid)))))"
  using assms by (simp add: findAlternatives_def)

text \<open>
  Claim C8. For a requested product that is out of stock, a result of
  \<open>findAlternatives\<close> is made of the candidates of \<open>bfsSearch\<close> that pass
  \<open>checkConstraints\<close>, in discovery order, each with its score and rules; these
  are sorted by descending score, the entries of equal score keeping their
  discovery order, and the first three are returned. On a well-formed graph
  that has the category of the requested product among its nodes,
  \<open>findAlternatives\<close> returns a result.
\<close>

theorem findAlternatives_sorted_stable_top3:
  assumes "map_of (g_node g) requestedProduct = Some (Product br cat pr False ts)"
  shows "(\<forall>rs. findAlternatives g requestedProduct maxPrice requiredTags preferredBrand = Inr rs \<longrightarrow>
      (\<exists>cands valid. bfsSearch g requestedProduct = Inr cands
         \<and> map fst valid =
             filter (\<lambda>p. checkConstraints g p maxPrice requiredTags preferredBrand = Inr True) cands
         \<and> (\<forall>x \<in> set valid. scoreCandidate g requestedProduct (fst x) = Inr (fst (snd x))
               \<and> explainRules g requestedProduct (fst x) requiredTags = Inr (snd (snd x)))
         \<and> rs = map (\<lambda>(productId, score, rules). Tuple3 productId score rules)
                  (take 3 (sort_reverse (\<lambda>x. fst (snd x)) valid))
         \<and> sorted_wrt (\<lambda>a b. fst (snd b) \<le> fst (snd a)) (sort_reverse (\<lambda>x. fst (snd x)) valid)
         \<and> (\<forall>k. filter (\<lambda>x. fst (snd x) = k) (sort_reverse (\<lambda>x. fst (snd x)) valid) =
                 filter (\<lambda>x. fst (snd x) = k) valid)
         \<and> set (sort_reverse (\<lambda>x. fst (snd x)) valid) = set valid
         \<and> length (sort_reverse (\<lambda>x. fst (snd x)) valid) = length valid
         \<and> length rs \<le> 3))
   \<and> (graph_ok g \<and> has_node g cat \<longrightarrow>
        (\<exists>rs. findAlternatives g requestedProduct maxPrice requiredTags preferredBrand = Inr rs))"
proof (intro conjI allI impI)
  fix rs
  assume run: "findAlternatives g requestedProduct maxPrice requiredTags preferredBrand = Inr rs"
  from run obtain cands where cands: "bfsSearch g requestedProduct = Inr cands"
    unfolding findAlternatives_out_of_stock [OF assms] by (auto split: sum.splits)
  with run obtain valid where
    valid: "valid_loop g requestedProduct maxPrice requiredTags preferredBrand cands [] = Inr valid"
    unfolding findAlternatives_out_of_stock [OF assms] by (auto split: sum.splits)
  from run cands valid have rs: "rs = map (\<lambda>(productId, score, rules). Tuple3 productId score rules)
                  (take 3 (sort_reverse (\<lambda>x. fst (snd x)) valid))"
    unfolding findAlternatives_out_of_stock [OF assms] by simp
  from valid_loop_Inr [OF valid] have
    v1: "map fst valid =
         filter (\<lambda>p. checkConstraints g p maxPrice requiredTags preferredBrand = Inr True) cands"
    and v2: "\<forall>x \<in> set valid. scoreCandidate g requestedProduct (fst x) = Inr (fst (snd x))
               \<and> explainRules g requestedProduct (fst x) requiredTags = Inr (snd (snd x))"
    by auto
  have len: "length rs \<le> 3" unfolding rs by simp
  from cands v1 v2 rs len
    sort_reverse_sorted [of "\<lambda>x. fst (snd x)" valid]
    sort_reverse_stable [of "\<lambda>x. fst (snd x)" _ valid]
    set_sort_reverse [of "\<lambda>x. fst (snd x)" valid]
    length_sort_reverse [of "\<lambda>x. fst (snd x)" valid]
  show "\<exists>cands valid. bfsSearch g requestedProduct = Inr cands
         \<and> map fst valid =
             filter (\<lambda>p. checkConstraints g p maxPrice requiredTags preferredBrand = Inr True) cands
         \<and> (\<forall>x \<in> set valid. scoreCandidate g requestedProduct (fst x) = Inr (fst (snd x))
               \<and> explainRules g requestedProduct (fst x) requiredTags = Inr (snd (snd x)))
         \<and> rs = map (\<lambda>(productId, score, rules). Tuple3 productId score rules)
                  (take 3 (sort_reverse (\<lambda>x. fst (snd x)) valid))
         \<and> sorted_wrt (\<lambda>a b. fst (snd b) \<le> fst (snd a)) (sort_reverse (\<lambda>x. fst (snd x)) valid)
         \<and> (\<forall>k. filter (\<lambda>x. fst (snd x) = k) (sort_reverse (\<lambda>x. fst (snd x)) valid) =
                 filter (\<lambda>x. fst (snd x) = k) valid)
         \<and> set (sort_reverse (\<lambda>x. fst (snd x)) valid) = set valid
         \<and> length (sort_reverse (\<lambda>x. fst (snd x)) valid) = length valid
         \<and> length rs \<le> 3"
    by blast
next
  assume ok: "graph_ok g \<and> has_node g cat"
  have "has_node g requestedProduct" using assms by (simp add: has_node_def)
  with ok obtain cands where cands: "bfsSearch g requestedProduct = Inr cands"
    using bfsSearch_returns by blast
  from ok have "map_of (g_adj g) cat \<noteq> None"
    by (auto simp: graph_ok_iff has_node_iff)
  from valid_loop_returns [OF assms this bfsSearch_products [OF cands]]
  obtain valid where
    "valid_loop g requestedProduct maxPrice requiredTags preferredBrand cands [] = Inr valid"
    by blast
  with cands show "\<exists>rs. findAlternatives g requestedProduct maxPrice requiredTags preferredBrand = Inr rs"
    unfolding findAlternatives_out_of_stock [OF assms] by simp
qed

theorem findAlternatives_sorted_stable_top3_witness:
  "map_of (g_node relinked_graph) ''R'' =
      Some (Product ''Y'' ''shoes'' (Finite 50) False [''running''])
   \<and> graph_ok relinked_graph \<and> has_node relinked_graph ''shoes''
   \<and> bfsSearch relinked_graph ''R'' = Inr [''P'', ''C'']
   \<and> findAlternatives relinked_graph ''R'' (Finite 100) [] None =
       Inr [Tuple3 ''P'' 0 [''Similar Category'', ''All tags matched'', ''Different brand''],
            Tuple3 ''C'' 0 [''Similar Category'', ''All tags matched'', ''Different brand'']]
   \<and> (\<exists>rs. findAlternatives relinked_graph ''R'' (Finite 100) [] None = Inr rs)"
proof -
  have r: "map_of (g_node relinked_graph) ''R'' =
      Some (Product ''Y'' ''shoes'' (Finite 50) False [''running''])"
    by code_simp
  have ok: "graph_ok relinked_graph \<and> has_node relinked_graph ''shoes''"
    by code_simp
  have b: "bfsSearch relinked_graph ''R'' = Inr [''P'', ''C'']"
    by code_simp
  have f: "findAlternatives relinked_graph ''R'' (Finite 100) [] None =
       Inr [Tuple3 ''P'' 0 [''Similar Category'', ''All tags matched'', ''Different brand''],
            Tuple3 ''C'' 0 [''Similar Category'', ''All tags matched'', ''Different brand'']]"
    by code_simp
  from findAlternatives_sorted_stable_top3 [OF r, of "Finite 100" "[]" None] ok
  have ex: "\<exists>rs. findAlternatives relinked_graph ''R'' (Finite 100) [] None = Inr rs"
    by (rule conjunct2 [THEN mp])
  show ?thesis
    using conjI [OF r conjI [OF conjunct1 [OF ok] conjI [OF conjunct2 [OF ok]
            conjI [OF b conjI [OF f ex]]]]] .
qed

section \<open>The query functions\<close>

lemma category_loop_eq:
  "category_loop nbs c s = (if c \<in> set nbs then s + 1 else s)"
  by (induction nbs) auto

lemma tags_loop_eq: "tags_loop required ts = (\<forall>t \<in> set required. t \<in> set ts)"
  by (induction required) auto

text \<open>
  Claim C1. On the graph of the products A, B and C, the alternatives to A with
  maximum price 100 and required tag "running" are B with score 5 and the four
  rules, then C with score 3.
\<close>

theorem findAlternatives_scenario:
  "findAlternatives scenario_graph ''A'' (Finite 100) [''running''] None =
     Inr [Tuple3 ''B'' 5 [''Same Category'', ''All tags matched'', ''Cheaper than original'',
                          ''Same brand''],
          Tuple3 ''C'' 3 [''Same Category'', ''All tags matched'', ''Different brand'']]"
  by code_simp

text \<open>
  Claim C2, as amended. When the two categories differ, the category term of
  the score is 1 exactly when the candidate's category is among the neighbours
  of the requested product's category node, and 0 otherwise; the brand and
  price terms are added to it.
\<close>

theorem scoreCandidate_category:
  assumes "map_of (g_node g) requested = Some (Product rbr rcat rpr rst rts)"
    and "map_of (g_node g) candidate = Some (Product cbr ccat cpr cst cts)"
    and "rcat \<noteq> ccat"
    and "neighbors g rcat = Inr nbs"
  shows "scoreCandidate g requested candidate =
    Inr ((if ccat \<in> set nbs then 1 else 0) + (if rbr = cbr then 1 else 0)
         + (if float_lt cpr rpr then 1 else 0))"
  using assms by (simp add: scoreCandidate_def category_loop_eq)

theorem scoreCandidate_category_witness:
  "scoreCandidate collision_graph ''R'' ''C'' = Inr 1"
proof -
  have r: "map_of (g_node collision_graph) ''R'' =
      Some (Product ''Y'' ''shoes'' (Finite 50) False [''running''])"
    by code_simp
  have c: "map_of (g_node collision_graph) ''C'' =
      Some (Product ''Z'' ''boots'' (Finite 60) True [''running''])"
    by code_simp
  have n: "neighbors collision_graph ''shoes'' = Inr [''boots'', ''R'']"
    by code_simp
  have d: "''shoes'' \<noteq> ''boots''" by simp
  show ?thesis
    using scoreCandidate_category [OF r c d n] by simp
qed

text \<open>
  A product that is adjacent to both category nodes does not make the two
  categories neighbours: P is linked to "shoes" and to "boots", and the score
  of C for R is 0.
\<close>

theorem scoreCandidate_shared_product_counterexample:
  "map_of (g_node relinked_graph) ''R'' =
      Some (Product ''Y'' ''shoes'' (Finite 50) False [''running''])
   \<and> map_of (g_node relinked_graph) ''C'' =
      Some (Product ''Z'' ''boots'' (Finite 60) True [''running''])
   \<and> neighbors relinked_graph ''P'' = Inr [''shoes'', ''running'', ''boots'']
   \<and> neighbors relinked_graph ''shoes'' = Inr [''P'', ''R'']
   \<and> neighbors relinked_graph ''boots'' = Inr [''P'', ''C'']
   \<and> scoreCandidate relinked_graph ''R'' ''C'' = Inr 0"
  by code_simp

text \<open>
  Claim C3, as amended. A requested id that is not a node gives the empty list.
  A requested product that is in stock gives the single four-component tuple
  ("EXACT_MATCH", id, 999, ["product_in_stock"]), whatever the edges of the
  graph and the other arguments are.
\<close>

theorem findAlternatives_absent_or_in_stock:
  "(map_of (g_node g) requestedProduct = None \<longrightarrow>
      findAlternatives g requestedProduct maxPrice requiredTags preferredBrand = Inr [])
   \<and> (map_of (g_node g) requestedProduct = Some (Product br cat pr True ts) \<longrightarrow>
      findAlternatives g requestedProduct maxPrice requiredTags preferredBrand =
        Inr [Tuple4 ''EXACT_MATCH'' requestedProduct 999 [''product_in_stock'']])"
  by (simp add: findAlternatives_def)

theorem findAlternatives_absent_or_in_stock_witness:
  "findAlternatives scenario_graph ''Z'' (Finite 100) [''running''] None = Inr []
   \<and> findAlternatives scenario_graph ''B'' (Finite 1) [''heavy''] (Some ''Y'') =
        Inr [Tuple4 ''EXACT_MATCH'' ''B'' 999 [''product_in_stock'']]"
proof -
  have z: "map_of (g_node scenario_graph) ''Z'' = None"
    by code_simp
  have b: "map_of (g_node scenario_graph) ''B'' =
      Some (Product ''X'' ''shoes'' (Finite 40) True [''running'', ''light''])"
    by code_simp
  show ?thesis
    using findAlternatives_absent_or_in_stock
            [where g = scenario_graph and requestedProduct = "''Z''" and maxPrice = "Finite 100"
               and requiredTags = "[''running'']" and preferredBrand = None] z
          findAlternatives_absent_or_in_stock
            [where g = scenario_graph and requestedProduct = "''B''" and br = "''X''"
               and cat = "''shoes''" and pr = "Finite 40" and ts = "[''running'', ''light'']"
               and maxPrice = "Finite 1" and requiredTags = "[''heavy'']"
               and preferredBrand = "Some ''Y''"] b
    by simp
qed

text \<open>The in-stock answer has four components, not three.\<close>

theorem in_stock_sentinel_counterexample:
  "findAlternatives scenario_graph ''B'' (Finite 100) [''running''] None =
     Inr [Tuple4 ''EXACT_MATCH'' ''B'' 999 [''product_in_stock'']]
   \<and> tuple_len (Tuple4 ''EXACT_MATCH'' ''B'' 999 [''product_in_stock'']) \<noteq> 3"
  by code_simp

text \<open>
  Claim C4, as amended. The rule list is the category label, then "All tags
  matched" exactly when every required tag is among the candidate's tags, then
  "Cheaper than original" exactly when the candidate's price is lower, then the
  brand label. It has between 2 and 4 entries, and at least 3 when every
  required tag is matched.
\<close>

theorem explainRules_entries:
  assumes "map_of (g_node g) requested = Some (Product rbr rcat rpr rst rts)"
    and "map_of (g_node g) candidate = Some (Product cbr ccat cpr cst cts)"
  shows "\<exists>rules. explainRules g requested candidate requiredTags = Inr rules
    \<and> rules =
        [if rcat = ccat then ''Same Category'' else ''Similar Category'']
        @ (if \<forall>tag \<in> set requiredTags. tag \<in> set cts then [''All tags matched''] else [])
        @ (if float_lt cpr rpr then [''Cheaper than original''] else [])
        @ [if cbr = rbr then ''Same brand'' else ''Different brand'']
    \<and> 2 \<le> length rules \<and> length rules \<le> 4
    \<and> ((\<forall>tag \<in> set requiredTags. tag \<in> set cts) \<longrightarrow> 3 \<le> length rules)"
  using assms by (simp add: explainRules_def list_all_iff Let_def)

theorem explainRules_entries_witness:
  "explainRules scenario_graph ''A'' ''B'' [''running''] =
     Inr [''Same Category'', ''All tags matched'', ''Cheaper than original'', ''Same brand'']"
proof -
  have a: "map_of (g_node scenario_graph) ''A'' =
      Some (Product ''X'' ''shoes'' (Finite 50) False [''running''])"
    by code_simp
  have b: "map_of (g_node scenario_graph) ''B'' =
      Some (Product ''X'' ''shoes'' (Finite 40) True [''running'', ''light''])"
    by code_simp
  show ?thesis
    using explainRules_entries [OF a b, of "[''running'']"] by simp
qed

text \<open>A candidate that lacks a required tag and is not cheaper gets two rules.\<close>

theorem explainRules_two_entries_counterexample:
  "explainRules scenario_graph ''A'' ''C'' [''light''] =
     Inr [''Same Category'', ''Different brand'']
   \<and> length [''Same Category'', ''Different brand''] = 2"
  by code_simp

text \<open>
  Claim C7. On a product node, \<open>checkConstraints\<close> is true exactly when the
  product is in stock, its price is not above the maximum, every required tag
  is among its tags, and the preferred brand is absent, empty or the product's
  brand; with no required tag the tag condition disappears. The function
  returns the answer alone: the graph is an argument, never a result.
\<close>

theorem checkConstraints_iff:
  assumes "map_of (g_node g) productId = Some (Product br cat pr st ts)"
  shows "checkConstraints g productId maxPrice requiredTags preferredBrand =
      Inr (st \<and> \<not> float_lt maxPrice pr \<and> (\<forall>tag \<in> set requiredTags. tag \<in> set ts)
           \<and> (preferredBrand = None \<or> preferredBrand = Some '''' \<or> preferredBrand = Some br))
    \<and> checkConstraints g productId maxPrice [] preferredBrand =
      Inr (st \<and> \<not> float_lt maxPrice pr
           \<and> (preferredBrand = None \<or> preferredBrand = Some '''' \<or> preferredBrand = Some br))"
  using assms by (auto simp add: checkConstraints_def tags_loop_eq float_gt_def)

theorem checkConstraints_iff_witness:
  "checkConstraints scenario_graph ''B'' (Finite 100) [''running''] None = Inr True
   \<and> checkConstraints scenario_graph ''B'' (Finite 100) [] None = Inr True"
proof -
  have b: "map_of (g_node scenario_graph) ''B'' =
      Some (Product ''X'' ''shoes'' (Finite 40) True [''running'', ''light''])"
    by code_simp
  show ?thesis
    using checkConstraints_iff [OF b, of "Finite 100" "[''running'']" None] by simp
qed

end
